theory Spec2Isabelle
  imports Complex_Main
begin

section \<open>Cached values and the size estimator\<close>

text \<open>
  The cache stores arbitrary Python objects. \<open>CacheEntry._estimate_size\<close> looks at
  the run-time type of a value, so the model keeps exactly the shapes it tells apart:
  a \<open>pygame.Surface\<close> (known by its width and height), a \<open>pygame.sprite.Group\<close>
  (known by the number of its sprites), a list, a tuple, a dict (its items in order),
  and any other object.
\<close>

datatype 'a pyval =
    Surface nat nat
  | Group nat
  | PyList "'a pyval list"
  | PyTuple "'a pyval list"
  | PyDict "('a pyval \<times> 'a pyval) list"
  | Other 'a

fun estimate_size :: "'a pyval \<Rightarrow> int" where
  "estimate_size (Surface w h) = int w * int h * 4"
| "estimate_size (Group n) = int n * 64"
| "estimate_size (PyList xs) = sum_list (map estimate_size xs)"
| "estimate_size (PyTuple xs) = sum_list (map estimate_size xs)"
| "estimate_size (PyDict kvs) =
     sum_list (map (\<lambda>kv. estimate_size (fst kv) + estimate_size (snd kv)) kvs)"
| "estimate_size (Other x) = 64"

section \<open>The clock and float subtraction\<close>

text \<open>
  \<open>time.time()\<close> is an input from the environment. The \<open>n\<close>-th call made by the
  program returns \<open>reading clk n\<close>; every function that reads the time takes the clock
  and the number of readings made so far, and returns the number of readings made after
  it. Times and durations are Python floats; a float is modelled by the real number it
  stands for. Comparing two floats is comparing these numbers, but the difference of two
  floats is rounded, so \<open>a - b\<close> on floats is not the subtraction of the reals: what the
  machine computes for it is \<open>fsub clk a b\<close>, a second input from the environment.
\<close>

record clock =
  reading :: "nat \<Rightarrow> real"
  fsub :: "real \<Rightarrow> real \<Rightarrow> real"

section \<open>Cache policies\<close>

definition LRU :: string where "LRU = ''lru''"
definition LFU :: string where "LFU = ''lfu''"
definition FIFO :: string where "FIFO = ''fifo''"
definition TTL :: string where "TTL = ''ttl''"

section \<open>Cache entries\<close>

record ('k, 'a) cache_entry =
  key :: 'k
  val :: "'a pyval"
  created_at :: real
  last_accessed :: real
  access_count :: int
  ttl :: "real option"
  entry_size :: int

definition CacheEntry_init ::
  "clock \<Rightarrow> nat \<Rightarrow> 'k \<Rightarrow> 'a pyval \<Rightarrow> real option \<Rightarrow> ('k, 'a) cache_entry \<times> nat" where
  "CacheEntry_init clk n k v t =
     (\<lparr>key = k, val = v, created_at = reading clk n, last_accessed = reading clk (Suc n),
       access_count = 0, ttl = t, entry_size = estimate_size v\<rparr>, Suc (Suc n))"

definition access ::
  "clock \<Rightarrow> nat \<Rightarrow> ('k, 'a) cache_entry \<Rightarrow> 'a pyval \<times> ('k, 'a) cache_entry \<times> nat" where
  "access clk n e =
     (val e, e\<lparr>last_accessed := reading clk n, access_count := access_count e + 1\<rparr>, Suc n)"

text \<open>\<open>is_expired\<close> reads the clock only when the entry has a time to live.\<close>

definition is_expired :: "clock \<Rightarrow> nat \<Rightarrow> ('k, 'a) cache_entry \<Rightarrow> bool \<times> nat" where
  "is_expired clk n e =
     (case ttl e of
        None \<Rightarrow> (False, n)
      | Some t \<Rightarrow> (fsub clk (reading clk n) (created_at e) > t, Suc n))"

section \<open>The ordered dictionary\<close>

text \<open>
  \<open>OrderedDict\<close> is an association list in insertion order whose keys are distinct.
  \<open>od_pop\<close> drops the binding of a key, \<open>od_setitem\<close> overwrites a binding in place
  or appends a new one at the end.
\<close>

definition od_pop :: "'k \<Rightarrow> ('k \<times> 'v) list \<Rightarrow> ('k \<times> 'v) list" where
  "od_pop k es = filter (\<lambda>p. fst p \<noteq> k) es"

fun od_setitem :: "'k \<Rightarrow> 'v \<Rightarrow> ('k \<times> 'v) list \<Rightarrow> ('k \<times> 'v) list" where
  "od_setitem k v [] = [(k, v)]"
| "od_setitem k v (p # es) = (if fst p = k then (k, v) # es else p # od_setitem k v es)"

text \<open>
  Python's \<open>min(iterable, key=f)\<close> keeps the first element among those with the
  least \<open>f\<close>: a later element replaces the current best only when strictly smaller.
\<close>

fun py_min :: "('x \<Rightarrow> int) \<Rightarrow> 'x \<Rightarrow> 'x list \<Rightarrow> 'x" where
  "py_min f best [] = best"
| "py_min f best (x # xs) = py_min f (if f x < f best then x else best) xs"

section \<open>The cache\<close>

record ('k, 'a) cache =
  name :: string
  max_size :: int
  max_memory :: int
  policy :: string
  default_ttl :: "real option"
  entries :: "('k \<times> ('k, 'a) cache_entry) list"
  total_memory :: int
  hits :: int
  misses :: int

definition Cache_init ::
  "string \<Rightarrow> int \<Rightarrow> int \<Rightarrow> string \<Rightarrow> real option \<Rightarrow> ('k, 'a) cache" where
  "Cache_init nm ms mm pol t =
     \<lparr>name = nm, max_size = ms, max_memory = mm, policy = pol, default_ttl = t,
      entries = [], total_memory = 0, hits = 0, misses = 0\<rparr>"

definition cache_remove :: "'k \<Rightarrow> ('k, 'a) cache \<Rightarrow> bool \<times> ('k, 'a) cache" where
  "cache_remove k c =
     (case map_of (entries c) k of
        None \<Rightarrow> (False, c)
      | Some e \<Rightarrow>
          (True, c\<lparr>entries := od_pop k (entries c),
                   total_memory := total_memory c - entry_size e\<rparr>))"

text \<open>
  \<open>Cache.get\<close>. On a hit the entry object is updated where it sits and, under LRU,
  moved to the end of the dictionary (the key is present there, so \<open>move_to_end\<close>
  cannot raise).
\<close>

definition cache_get ::
  "clock \<Rightarrow> nat \<Rightarrow> 'k \<Rightarrow> 'a pyval \<Rightarrow> ('k, 'a) cache \<Rightarrow> 'a pyval \<times> ('k, 'a) cache \<times> nat" where
  "cache_get clk n k dflt c =
     (case map_of (entries c) k of
        None \<Rightarrow> (dflt, c\<lparr>misses := misses c + 1\<rparr>, n)
      | Some e \<Rightarrow>
          (case is_expired clk n e of
             (True, n1) \<Rightarrow>
               (let c1 = snd (cache_remove k c)
                in (dflt, c1\<lparr>misses := misses c1 + 1\<rparr>, n1))
           | (False, n1) \<Rightarrow>
               (let c1 = c\<lparr>hits := hits c + 1\<rparr>;
                    (v, e', n2) = access clk n1 e;
                    es = od_setitem k e' (entries c1);
                    c2 = c1\<lparr>entries :=
                            (if policy c1 = LRU then od_pop k es @ [(k, e')] else es)\<rparr>
                in (v, c2, n2))))"

definition cache_clear :: "('k, 'a) cache \<Rightarrow> ('k, 'a) cache" where
  "cache_clear c = c\<lparr>entries := [], total_memory := 0, hits := 0, misses := 0\<rparr>"

text \<open>\<open>Cache._evict_expired\<close>: collect the expired keys in dictionary order, then remove them.\<close>

fun expired_keys ::
  "clock \<Rightarrow> nat \<Rightarrow> ('k \<times> ('k, 'a) cache_entry) list \<Rightarrow> 'k list \<times> nat" where
  "expired_keys clk n [] = ([], n)"
| "expired_keys clk n (p # es) =
     (case is_expired clk n (snd p) of
        (ex, n1) \<Rightarrow>
          (case expired_keys clk n1 es of
             (ks, n2) \<Rightarrow> (if ex then fst p # ks else ks, n2)))"

definition evict_expired ::
  "clock \<Rightarrow> nat \<Rightarrow> ('k, 'a) cache \<Rightarrow> ('k, 'a) cache \<times> nat" where
  "evict_expired clk n c =
     (case expired_keys clk n (entries c) of
        (ks, n1) \<Rightarrow> (fold (\<lambda>k c'. snd (cache_remove k c')) ks c, n1))"

text \<open>
  \<open>Cache._evict_one\<close>: nothing to do on an empty store; otherwise the victim is the
  first key, except under LFU, where it is the key of least access count.
\<close>

definition evict_one :: "('k, 'a) cache \<Rightarrow> bool \<times> ('k, 'a) cache" where
  "evict_one c =
     (case entries c of
        [] \<Rightarrow> (False, c)
      | p # rest \<Rightarrow>
          (let k = (if policy c = LRU then fst p
                    else if policy c = LFU then
                      py_min (\<lambda>k'. access_count (the (map_of (entries c) k')))
                        (fst p) (map fst rest)
                    else if policy c = FIFO then fst p
                    else fst p)
           in cache_remove k c))"

text \<open>
  The two loops of \<open>Cache._evict_if_needed\<close>. The first one ignores what
  \<open>_evict_one\<close> returns, so it is a partial function: \<open>None\<close> is the loop that never
  ends. The second one stops as soon as \<open>_evict_one\<close> returns false.
\<close>

partial_function (option) evict_while_full :: "('k, 'a) cache \<Rightarrow> ('k, 'a) cache option" where
  "evict_while_full c =
     (if int (length (entries c)) \<ge> max_size c
      then evict_while_full (snd (evict_one c))
      else Some c)"

function evict_while_over :: "int \<Rightarrow> ('k, 'a) cache \<Rightarrow> ('k, 'a) cache" where
  "evict_while_over new_size c =
     (if total_memory c + new_size > max_memory c
      then (if \<not> fst (evict_one c) then snd (evict_one c)
            else evict_while_over new_size (snd (evict_one c)))
      else c)"
  by pat_completeness auto

text \<open>
  \<open>Cache._evict_if_needed\<close>: sweep the expired entries, then make room by count,
  then by memory.
\<close>

definition evict_if_needed ::
  "clock \<Rightarrow> nat \<Rightarrow> int \<Rightarrow> ('k, 'a) cache \<Rightarrow> (('k, 'a) cache \<times> nat) option" where
  "evict_if_needed clk n new_size c =
     (case evict_expired clk n c of
        (c1, n1) \<Rightarrow>
          (case evict_while_full c1 of
             None \<Rightarrow> None
           | Some c2 \<Rightarrow> Some (evict_while_over new_size c2, n1)))"

text \<open>
  Python's \<open>ttl or self.default_ttl\<close>: the default is taken when \<open>ttl\<close> is
  \<open>None\<close> and also when it is zero, which is falsy.
\<close>

definition py_or :: "real option \<Rightarrow> real option \<Rightarrow> real option" where
  "py_or t d = (case t of None \<Rightarrow> d | Some x \<Rightarrow> if x = 0 then d else Some x)"

text \<open>\<open>Cache.put\<close>; \<open>None\<close> when the call never returns.\<close>

definition cache_put ::
  "clock \<Rightarrow> nat \<Rightarrow> 'k \<Rightarrow> 'a pyval \<Rightarrow> real option \<Rightarrow> ('k, 'a) cache
     \<Rightarrow> (('k, 'a) cache \<times> nat) option" where
  "cache_put clk n k v t c =
     (let c1 = (if k \<in> set (map fst (entries c)) then snd (cache_remove k c) else c)
      in case CacheEntry_init clk n k v (py_or t (default_ttl c1)) of
           (e, n1) \<Rightarrow>
             (case evict_if_needed clk n1 (entry_size e) c1 of
                None \<Rightarrow> None
              | Some (c2, n2) \<Rightarrow>
                  Some (c2\<lparr>entries := od_setitem k e (entries c2),
                           total_memory := total_memory c2 + entry_size e\<rparr>, n2)))"

section \<open>The cache manager\<close>

text \<open>
  The registry is a Python dict from names to caches; it is kept in insertion order, as
  the sweep visits \<open>self._caches.values()\<close> in that order.
\<close>

record ('k, 'a) manager =
  caches :: "(string \<times> ('k, 'a) cache) list"
  last_gc_time :: real
  gc_interval :: real

definition create_cache ::
  "string \<Rightarrow> int \<Rightarrow> int \<Rightarrow> string \<Rightarrow> real option \<Rightarrow> ('k, 'a) manager
     \<Rightarrow> ('k, 'a) cache \<times> ('k, 'a) manager" where
  "create_cache nm ms mm pol t m =
     (let c = Cache_init nm ms mm pol t
      in (c, m\<lparr>caches := od_setitem nm c (caches m)\<rparr>))"

definition get_cache :: "string \<Rightarrow> ('k, 'a) manager \<Rightarrow> ('k, 'a) cache option" where
  "get_cache nm m = map_of (caches m) nm"

definition create_default_caches :: "('k, 'a) manager \<Rightarrow> ('k, 'a) manager" where
  "create_default_caches m =
     (let m1 = snd (create_cache ''tile_surfaces'' 200 (50 * 1024 * 1024) LRU None m);
          m2 = snd (create_cache ''animation_frames'' 100 (30 * 1024 * 1024) LFU None m1);
          m3 = snd (create_cache ''collision_groups'' 10 (10 * 1024 * 1024) LRU (Some 5) m2);
          m4 = snd (create_cache ''level_data'' 5 (20 * 1024 * 1024) LRU None m3)
      in snd (create_cache ''sounds'' 50 (20 * 1024 * 1024) LFU None m4))"

definition CacheManager_init :: "clock \<Rightarrow> nat \<Rightarrow> ('k, 'a) manager \<times> nat" where
  "CacheManager_init clk n =
     (create_default_caches \<lparr>caches = [], last_gc_time = reading clk n, gc_interval = 60\<rparr>, Suc n)"

definition manager_get ::
  "clock \<Rightarrow> nat \<Rightarrow> string \<Rightarrow> 'k \<Rightarrow> 'a pyval \<Rightarrow> ('k, 'a) manager
     \<Rightarrow> 'a pyval \<times> ('k, 'a) manager \<times> nat" where
  "manager_get clk n nm k dflt m =
     (case map_of (caches m) nm of
        None \<Rightarrow> (dflt, m, n)
      | Some c \<Rightarrow>
          (case cache_get clk n k dflt c of
             (v, c', n1) \<Rightarrow> (v, m\<lparr>caches := od_setitem nm c' (caches m)\<rparr>, n1)))"

definition manager_put ::
  "clock \<Rightarrow> nat \<Rightarrow> string \<Rightarrow> 'k \<Rightarrow> 'a pyval \<Rightarrow> real option \<Rightarrow> ('k, 'a) manager
     \<Rightarrow> (('k, 'a) manager \<times> nat) option" where
  "manager_put clk n nm k v t m =
     (case map_of (caches m) nm of
        None \<Rightarrow> Some (m, n)
      | Some c \<Rightarrow>
          (case cache_put clk n k v t c of
             None \<Rightarrow> None
           | Some (c', n1) \<Rightarrow> Some (m\<lparr>caches := od_setitem nm c' (caches m)\<rparr>, n1)))"





section \<open>Invariants and reachable states\<close>

text \<open>
  \<open>sum_sizes\<close> adds up the \<open>size\<close> fields of the stored entries. \<open>cache_ok\<close> is
  the well-formedness of a cache: the keys of the dictionary are distinct, the running
  total equals that sum, and no stored size is negative. \<open>reachable_from clk c0 c\<close>
  says that \<open>c\<close> is obtained from \<open>c0\<close> by calls of the cache's operations that
  returned, each made at some clock reading. \<open>victim\<close> names the key that
  \<open>_evict_one\<close> picks on a non-empty store.
\<close>

definition sum_sizes :: "('k \<times> ('k, 'a) cache_entry) list \<Rightarrow> int" where
  "sum_sizes es = (\<Sum>p\<leftarrow>es. entry_size (snd p))"

definition cache_ok :: "('k, 'a) cache \<Rightarrow> bool" where
  "cache_ok c \<longleftrightarrow>
     distinct (map fst (entries c)) \<and>
     total_memory c = sum_sizes (entries c) \<and>
     (\<forall>p \<in> set (entries c). 0 \<le> entry_size (snd p))"

inductive reachable_from ::
  "clock \<Rightarrow> ('k, 'a) cache \<Rightarrow> ('k, 'a) cache \<Rightarrow> bool" for clk c0 where
  start: "reachable_from clk c0 c0"
| after_get: "reachable_from clk c0 c \<Longrightarrow> cache_get clk n k dflt c = (v, c', n')
     \<Longrightarrow> reachable_from clk c0 c'"
| after_put: "reachable_from clk c0 c \<Longrightarrow> cache_put clk n k v t c = Some (c', n')
     \<Longrightarrow> reachable_from clk c0 c'"
| after_remove: "reachable_from clk c0 c \<Longrightarrow> cache_remove k c = (b, c')
     \<Longrightarrow> reachable_from clk c0 c'"
| after_clear: "reachable_from clk c0 c \<Longrightarrow> reachable_from clk c0 (cache_clear c)"
| after_sweep: "reachable_from clk c0 c \<Longrightarrow> evict_expired clk n c = (c', n')
     \<Longrightarrow> reachable_from clk c0 c'"

text \<open>
  \<open>shrunk c c'\<close>: \<open>c'\<close> is \<open>c\<close> with some entries removed, the others kept
  in their order, and nothing else changed; it is well-formed if \<open>c\<close> was. Every
  eviction step is of this kind.
\<close>

definition shrunk :: "('k, 'a) cache \<Rightarrow> ('k, 'a) cache \<Rightarrow> bool" where
  "shrunk c c' \<longleftrightarrow>
     name c' = name c \<and> max_size c' = max_size c \<and> max_memory c' = max_memory c \<and>
     policy c' = policy c \<and> default_ttl c' = default_ttl c \<and>
     hits c' = hits c \<and> misses c' = misses c \<and>
     (\<exists>P. entries c' = filter P (entries c)) \<and>
     (cache_ok c \<longrightarrow> cache_ok c')"

definition victim :: "('k, 'a) cache \<Rightarrow> 'k" where
  "victim c =
     (if policy c = LFU
      then py_min (\<lambda>k'. access_count (the (map_of (entries c) k')))
             (fst (hd (entries c))) (map fst (tl (entries c)))
      else fst (hd (entries c)))"

definition same_config :: "('k, 'a) cache \<Rightarrow> ('k, 'a) cache \<Rightarrow> bool" where
  "same_config c c' \<longleftrightarrow>
     name c' = name c \<and> max_size c' = max_size c \<and> max_memory c' = max_memory c \<and>
     policy c' = policy c \<and> default_ttl c' = default_ttl c"








definition still_clock :: "real \<Rightarrow> clock" where
  "still_clock t = \<lparr>reading = (\<lambda>_. t), fsub = (\<lambda>a b. a - b)\<rparr>"

section \<open>Basic facts\<close>

subsection \<open>Sizes and the ordered dictionary\<close>

lemma estimate_size_nonneg: "0 \<le> estimate_size v"
  by (induction v) (auto intro!: sum_list_nonneg add_nonneg_nonneg)

lemma od_pop_length_le: "length (od_pop k es) \<le> length es"
  by (simp add: od_pop_def)

lemma od_pop_length_less:
  "map_of es k = Some e \<Longrightarrow> length (od_pop k es) < length es"
  unfolding od_pop_def
  by (induction es) (auto split: if_splits simp: less_Suc_eq_le)

lemma od_pop_keys: "map fst (od_pop k es) = removeAll k (map fst es)"
  unfolding od_pop_def by (induction es) auto

lemma od_pop_distinct: "distinct (map fst es) \<Longrightarrow> distinct (map fst (od_pop k es))"
  by (simp add: od_pop_keys distinct_removeAll)

lemma od_pop_absent: "k \<notin> fst ` set (od_pop k es)"
  by (auto simp: od_pop_def)

lemma od_pop_sum:
  "distinct (map fst es) \<Longrightarrow> map_of es k = Some e \<Longrightarrow>
   (\<Sum>p\<leftarrow>od_pop k es. f (snd p)) = (\<Sum>p\<leftarrow>es. f (snd p)) - (f e :: int)"
  unfolding od_pop_def
proof (induction es)
  case Nil
  then show ?case by simp
next
  case (Cons p es)
  show ?case
  proof (cases "fst p = k")
    case True
    with Cons.prems have "snd p = e" and "k \<notin> fst ` set es" by auto
    then have "filter (\<lambda>q. fst q \<noteq> k) es = es"
      by (auto simp: filter_id_conv)
    with True \<open>snd p = e\<close> show ?thesis by simp
  next
    case False
    with Cons show ?thesis by simp
  qed
qed

lemma od_pop_notin: "k \<notin> fst ` set es \<Longrightarrow> od_pop k es = es"
  by (auto simp: od_pop_def filter_id_conv)

lemma od_setitem_fresh: "k \<notin> fst ` set es \<Longrightarrow> od_setitem k v es = es @ [(k, v)]"
  by (induction es) auto

lemma od_setitem_keys_present:
  "k \<in> fst ` set es \<Longrightarrow> map fst (od_setitem k v es) = map fst es"
  by (induction es) auto

lemma od_setitem_length: "length (od_setitem k v es) \<le> Suc (length es)"
  by (induction es) auto

lemma py_min_mem: "py_min f b xs \<in> insert b (set xs)"
  by (induction xs arbitrary: b) (auto split: if_splits)

subsection \<open>Removing and evicting one entry\<close>

lemma sum_sizes_nonneg: "\<forall>p \<in> set es. 0 \<le> entry_size (snd p) \<Longrightarrow> 0 \<le> sum_sizes es"
  unfolding sum_sizes_def by (induction es) auto

lemma cache_ok_init: "cache_ok (Cache_init nm ms mm pol t)"
  by (simp add: cache_ok_def Cache_init_def sum_sizes_def)

lemma cache_ok_total_nonneg: "cache_ok c \<Longrightarrow> 0 \<le> total_memory c"
  by (simp add: cache_ok_def sum_sizes_nonneg)

lemma cache_remove_ok: "cache_ok c \<Longrightarrow> cache_ok (snd (cache_remove k c))"
  by (auto simp: cache_ok_def cache_remove_def sum_sizes_def od_pop_distinct od_pop_sum
      split: option.splits) (auto simp: od_pop_def)

lemma cache_remove_config:
  "max_size (snd (cache_remove k c)) = max_size c"
  "max_memory (snd (cache_remove k c)) = max_memory c"
  "policy (snd (cache_remove k c)) = policy c"
  "default_ttl (snd (cache_remove k c)) = default_ttl c"
  "name (snd (cache_remove k c)) = name c"
  by (simp_all add: cache_remove_def split: option.splits)

lemma cache_remove_length_le:
  "length (entries (snd (cache_remove k c))) \<le> length (entries c)"
  by (simp add: cache_remove_def od_pop_length_le split: option.splits)

lemma cache_remove_present:
  "k \<in> fst ` set (entries c) \<Longrightarrow>
     fst (cache_remove k c) \<and> length (entries (snd (cache_remove k c))) < length (entries c)"
proof -
  assume "k \<in> fst ` set (entries c)"
  then obtain e where "map_of (entries c) k = Some e"
    by (metis domD dom_map_of_conv_image_fst)
  then show ?thesis
    by (simp add: cache_remove_def od_pop_length_less)
qed

lemma cache_remove_absent: "k \<notin> fst ` set (entries (snd (cache_remove k c)))"
  by (auto simp: cache_remove_def od_pop_def split: option.splits
      dest: map_of_SomeD weak_map_of_SomeI)

lemma evict_one_victim:
  "entries c \<noteq> [] \<Longrightarrow> evict_one c = cache_remove (victim c) c"
  by (cases "entries c") (simp_all add: evict_one_def victim_def LRU_def LFU_def)

lemma victim_present: "entries c \<noteq> [] \<Longrightarrow> victim c \<in> fst ` set (entries c)"
proof -
  assume ne: "entries c \<noteq> []"
  then obtain p rest where es: "entries c = p # rest" by (cases "entries c") auto
  have "py_min f (fst p) (map fst rest) \<in> insert (fst p) (set (map fst rest))" for f
    by (rule py_min_mem)
  with es show ?thesis by (auto simp: victim_def)
qed

lemma evict_one_empty: "entries c = [] \<Longrightarrow> evict_one c = (False, c)"
  by (simp add: evict_one_def)

lemma evict_one_nonempty:
  "entries c \<noteq> [] \<Longrightarrow>
     fst (evict_one c) \<and> length (entries (snd (evict_one c))) < length (entries c)"
  by (simp add: evict_one_victim cache_remove_present victim_present)

lemma evict_one_ok: "cache_ok c \<Longrightarrow> cache_ok (snd (evict_one c))"
  by (cases "entries c = []") (simp_all add: evict_one_empty evict_one_victim cache_remove_ok)

lemma evict_one_config:
  "max_size (snd (evict_one c)) = max_size c"
  "max_memory (snd (evict_one c)) = max_memory c"
  "policy (snd (evict_one c)) = policy c"
  "default_ttl (snd (evict_one c)) = default_ttl c"
  "name (snd (evict_one c)) = name c"
  by (cases "entries c = []"; simp add: evict_one_empty evict_one_victim cache_remove_config)+

lemma evict_one_length_le: "length (entries (snd (evict_one c))) \<le> length (entries c)"
  by (cases "entries c = []") (simp_all add: evict_one_empty evict_one_victim cache_remove_length_le)

lemma evict_one_decreases:
  "fst (evict_one c) \<Longrightarrow> length (entries (snd (evict_one c))) < length (entries c)"
  by (cases "entries c = []") (simp_all add: evict_one_empty evict_one_nonempty)

termination evict_while_over
  by (relation "measure (\<lambda>(s, c). length (entries c))") (simp_all add: evict_one_decreases)

declare evict_while_over.simps [simp del]

subsection \<open>Eviction only removes entries\<close>

lemma shrunk_refl: "shrunk c c"
proof -
  have "entries c = filter (\<lambda>_. True) (entries c)" by simp
  then have "\<exists>P. entries c = filter P (entries c)"
    by (rule exI [where x = "\<lambda>_. True"])
  then show ?thesis by (simp add: shrunk_def)
qed

lemma shrunk_trans:
  assumes "shrunk c c1" and "shrunk c1 c2"
  shows "shrunk c c2"
proof -
  from assms obtain P Q where "entries c1 = filter P (entries c)"
    and "entries c2 = filter Q (entries c1)"
    unfolding shrunk_def by blast
  then have "entries c2 = filter (\<lambda>x. P x \<and> Q x) (entries c)" by simp
  then have "\<exists>R. entries c2 = filter R (entries c)"
    by (rule exI [where x = "\<lambda>x. P x \<and> Q x"])
  with assms show ?thesis by (simp add: shrunk_def)
qed

lemma shrunk_set: "shrunk c c' \<Longrightarrow> set (entries c') \<subseteq> set (entries c)"
  unfolding shrunk_def by auto

lemma shrunk_length: "shrunk c c' \<Longrightarrow> length (entries c') \<le> length (entries c)"
  unfolding shrunk_def by auto

lemma shrunk_remove: "shrunk c (snd (cache_remove k c))"
proof (cases "map_of (entries c) k")
  case None
  then show ?thesis by (simp add: cache_remove_def shrunk_refl)
next
  case (Some e)
  have "\<exists>P. od_pop k (entries c) = filter P (entries c)"
    unfolding od_pop_def by (rule exI [where x = "\<lambda>p. fst p \<noteq> k"]) (rule refl)
  with Some cache_remove_ok [of c k] show ?thesis
    by (simp add: shrunk_def cache_remove_def)
qed

lemma shrunk_evict_one: "shrunk c (snd (evict_one c))"
  by (cases "entries c = []") (simp_all add: evict_one_empty evict_one_victim shrunk_refl shrunk_remove)

lemma shrunk_fold_remove: "shrunk c (fold (\<lambda>k c'. snd (cache_remove k c')) ks c)"
proof (induction ks arbitrary: c)
  case Nil
  show ?case by (simp add: shrunk_refl)
next
  case (Cons k ks)
  show ?case
    using shrunk_trans [OF shrunk_remove Cons.IH] by simp
qed

lemma shrunk_evict_expired: "shrunk c (fst (evict_expired clk n c))"
  by (simp add: evict_expired_def shrunk_fold_remove split: prod.splits)

lemma shrunk_evict_while_over: "shrunk c (evict_while_over s c)"
proof (induction s c rule: evict_while_over.induct)
  case (1 s c)
  show ?case
  proof (cases "total_memory c + s > max_memory c")
    case False
    then show ?thesis by (simp add: evict_while_over.simps [of s c] shrunk_refl)
  next
    case over: True
    show ?thesis
    proof (cases "fst (evict_one c)")
      case False
      with over show ?thesis by (simp add: evict_while_over.simps [of s c] shrunk_evict_one)
    next
      case True
      with over "1.IH" have "shrunk (snd (evict_one c)) (evict_while_over s (snd (evict_one c)))"
        by simp
      with shrunk_evict_one have "shrunk c (evict_while_over s (snd (evict_one c)))"
        by (rule shrunk_trans)
      with over True show ?thesis by (simp add: evict_while_over.simps [of s c])
    qed
  qed
qed

lemma shrunk_evict_while_full:
  fixes c c' :: "('k, 'a) cache"
  assumes "evict_while_full c = Some c'"
  shows "shrunk c c' \<and> int (length (entries c')) < max_size c'"
proof (rule evict_while_full.raw_induct
    [where P = "\<lambda>c c'. shrunk c c' \<and> int (length (entries c')) < max_size c'", OF _ assms])
  fix loop :: "('k, 'a) cache \<Rightarrow> ('k, 'a) cache option" and c c' :: "('k, 'a) cache"
  assume IH: "\<And>x y. loop x = Some y \<Longrightarrow> shrunk x y \<and> int (length (entries y)) < max_size y"
    and eq: "(if max_size c \<le> int (length (entries c))
              then loop (snd (evict_one c)) else Some c) = Some c'"
  show "shrunk c c' \<and> int (length (entries c')) < max_size c'"
  proof (cases "max_size c \<le> int (length (entries c))")
    case True
    with eq have "loop (snd (evict_one c)) = Some c'" by simp
    then have "shrunk (snd (evict_one c)) c' \<and> int (length (entries c')) < max_size c'"
      by (rule IH)
    then show ?thesis using shrunk_trans [OF shrunk_evict_one] by blast
  next
    case False
    with eq show ?thesis by (auto simp: shrunk_refl)
  qed
qed

subsection \<open>When the loops end\<close>

lemma evict_while_full_returns:
  "1 \<le> max_size c \<Longrightarrow> \<exists>c'. evict_while_full c = Some c'"
proof (induction "length (entries c)" arbitrary: c rule: less_induct)
  case less
  show ?case
  proof (cases "int (length (entries c)) \<ge> max_size c")
    case False
    then show ?thesis by (subst evict_while_full.simps) simp
  next
    case True
    with less.prems have "entries c \<noteq> []" by auto
    then have "length (entries (snd (evict_one c))) < length (entries c)"
      by (simp add: evict_one_nonempty)
    moreover have "1 \<le> max_size (snd (evict_one c))"
      using less.prems by (simp add: evict_one_config)
    ultimately obtain c' where "evict_while_full (snd (evict_one c)) = Some c'"
      using less.hyps by blast
    with True show ?thesis by (subst evict_while_full.simps) simp
  qed
qed

lemma evict_while_full_positive:
  fixes c c' :: "('k, 'a) cache"
  assumes "evict_while_full c = Some c'"
  shows "0 < max_size c"
proof (rule evict_while_full.raw_induct [where P = "\<lambda>c c'. 0 < max_size c", OF _ assms])
  fix loop :: "('k, 'a) cache \<Rightarrow> ('k, 'a) cache option" and c c' :: "('k, 'a) cache"
  assume IH: "\<And>x y. loop x = Some y \<Longrightarrow> 0 < max_size x"
    and eq: "(if max_size c \<le> int (length (entries c))
              then loop (snd (evict_one c)) else Some c) = Some c'"
  show "0 < max_size c"
  proof (cases "max_size c \<le> int (length (entries c))")
    case True
    with eq have "loop (snd (evict_one c)) = Some c'" by simp
    then have "0 < max_size (snd (evict_one c))" by (rule IH)
    then show ?thesis by (simp add: evict_one_config)
  next
    case False
    then show ?thesis by linarith
  qed
qed

lemma evict_while_full_diverges:
  "max_size c \<le> 0 \<Longrightarrow> evict_while_full c = None"
  using evict_while_full_positive [of c] by (cases "evict_while_full c") auto

lemma evict_while_over_post:
  "total_memory (evict_while_over s c) + s \<le> max_memory (evict_while_over s c) \<or>
   entries (evict_while_over s c) = []"
proof (induction s c rule: evict_while_over.induct)
  case (1 s c)
  show ?case
  proof (cases "total_memory c + s > max_memory c")
    case False
    then show ?thesis by (simp add: evict_while_over.simps [of s c])
  next
    case over: True
    show ?thesis
    proof (cases "fst (evict_one c)")
      case False
      then have "entries c = []"
        using evict_one_nonempty [of c] by blast
      with over False show ?thesis
        by (simp add: evict_while_over.simps [of s c] evict_one_empty)
    next
      case True
      with over "1.IH" show ?thesis by (simp add: evict_while_over.simps [of s c])
    qed
  qed
qed

lemma evict_while_over_oversized:
  assumes "cache_ok c" and "max_memory c < s"
  shows "entries (evict_while_over s c) = []"
proof -
  let ?c' = "evict_while_over s c"
  have sh: "shrunk c ?c'" by (rule shrunk_evict_while_over)
  with assms(1) have "0 \<le> total_memory ?c'"
    by (simp add: shrunk_def cache_ok_total_nonneg)
  moreover from sh assms(2) have "max_memory ?c' < s"
    by (simp add: shrunk_def)
  ultimately have "\<not> total_memory ?c' + s \<le> max_memory ?c'" by linarith
  with evict_while_over_post [of s c] show ?thesis by blast
qed

lemma evict_while_over_empty: "entries c = [] \<Longrightarrow> evict_while_over s c = c"
  by (simp add: evict_while_over.simps [of s c] evict_one_empty)

subsection \<open>What put does\<close>

text \<open>\<open>put\<close> with its steps named.\<close>

lemma cache_put_unfold:
  "cache_put clk n k v t c =
     (let c1 = (if k \<in> fst ` set (entries c) then snd (cache_remove k c) else c);
          e = fst (CacheEntry_init clk n k v (py_or t (default_ttl c)));
          sw = evict_expired clk (Suc (Suc n)) c1
      in case evict_while_full (fst sw) of
           None \<Rightarrow> None
         | Some c2 \<Rightarrow>
             Some ((evict_while_over (entry_size e) c2)
                     \<lparr>entries := od_setitem k e (entries (evict_while_over (entry_size e) c2)),
                      total_memory :=
                        total_memory (evict_while_over (entry_size e) c2) + entry_size e\<rparr>,
                   snd sw))"
  by (cases "k \<in> fst ` set (entries c)")
     (simp_all add: cache_put_def CacheEntry_init_def evict_if_needed_def cache_remove_config
        Let_def case_prod_beta split: option.splits)

lemma cache_put_SomeD:
  assumes "cache_put clk n k v t c = Some (c', n')"
  shows "\<exists>c2 e. shrunk c c2 \<and> k \<notin> fst ` set (entries c2) \<and>
           int (length (entries c2)) < max_size c \<and>
           (total_memory c2 + entry_size e \<le> max_memory c \<or> entries c2 = []) \<and>
           e = fst (CacheEntry_init clk n k v (py_or t (default_ttl c))) \<and>
           c' = c2\<lparr>entries := entries c2 @ [(k, e)],
                   total_memory := total_memory c2 + entry_size e\<rparr>"
proof -
  define c1 where "c1 = (if k \<in> fst ` set (entries c) then snd (cache_remove k c) else c)"
  define e where "e = fst (CacheEntry_init clk n k v (py_or t (default_ttl c)))"
  define c1x where "c1x = fst (evict_expired clk (Suc (Suc n)) c1)"
  have sh1: "shrunk c c1"
    by (simp add: c1_def shrunk_refl shrunk_remove)
  have k1: "k \<notin> fst ` set (entries c1)"
    using cache_remove_absent [of k c] by (auto simp: c1_def)
  from assms obtain c1y where
    full: "evict_while_full c1x = Some c1y" and
    c': "c' = (evict_while_over (entry_size e) c1y)
          \<lparr>entries := od_setitem k e (entries (evict_while_over (entry_size e) c1y)),
           total_memory := total_memory (evict_while_over (entry_size e) c1y) + entry_size e\<rparr>"
    unfolding cache_put_unfold Let_def c1_def [symmetric] e_def [symmetric] c1x_def [symmetric]
    by (auto split: option.splits)
  define c2 where "c2 = evict_while_over (entry_size e) c1y"
  have shx: "shrunk c1 c1x"
    by (simp add: c1x_def shrunk_evict_expired)
  have shy: "shrunk c1x c1y" and len: "int (length (entries c1y)) < max_size c1y"
    using shrunk_evict_while_full [OF full] by simp_all
  have sh2: "shrunk c1y c2"
    by (simp add: c2_def shrunk_evict_while_over)
  have sh: "shrunk c c2"
    using sh1 shx shy sh2 by (blast intro: shrunk_trans)
  have k2: "k \<notin> fst ` set (entries c2)"
    using k1 shrunk_set [OF shx] shrunk_set [OF shy] shrunk_set [OF sh2] by blast
  have "int (length (entries c2)) < max_size c"
    using len sh1 shx shy shrunk_length [OF sh2] unfolding shrunk_def by linarith
  moreover have "total_memory c2 + entry_size e \<le> max_memory c \<or> entries c2 = []"
  proof -
    have "max_memory c2 = max_memory c"
      using sh by (simp add: shrunk_def)
    then show ?thesis
      using evict_while_over_post [of "entry_size e" c1y] by (auto simp: c2_def)
  qed
  moreover have "c' = c2\<lparr>entries := entries c2 @ [(k, e)],
                   total_memory := total_memory c2 + entry_size e\<rparr>"
    using c' k2 by (simp add: c2_def od_setitem_fresh)
  ultimately show ?thesis
    using sh k2 e_def by blast
qed

lemma cache_put_returns:
  assumes "1 \<le> max_size c"
  shows "\<exists>c' n'. cache_put clk n k v t c = Some (c', n')"
proof -
  define c1 where "c1 = (if k \<in> fst ` set (entries c) then snd (cache_remove k c) else c)"
  define c1x where "c1x = fst (evict_expired clk (Suc (Suc n)) c1)"
  have "shrunk c c1"
    by (simp add: c1_def shrunk_refl shrunk_remove)
  moreover have "shrunk c1 c1x"
    by (simp add: c1x_def shrunk_evict_expired)
  ultimately have "1 \<le> max_size c1x"
    using assms by (simp add: shrunk_def)
  then obtain c1y where "evict_while_full c1x = Some c1y"
    using evict_while_full_returns by blast
  then show ?thesis
    unfolding cache_put_unfold Let_def c1_def [symmetric] c1x_def [symmetric]
    by simp
qed

lemma cache_put_diverges:
  assumes "max_size c \<le> 0"
  shows "cache_put clk n k v t c = None"
proof -
  define c1 where "c1 = (if k \<in> fst ` set (entries c) then snd (cache_remove k c) else c)"
  define c1x where "c1x = fst (evict_expired clk (Suc (Suc n)) c1)"
  have "shrunk c c1"
    by (simp add: c1_def shrunk_refl shrunk_remove)
  moreover have "shrunk c1 c1x"
    by (simp add: c1x_def shrunk_evict_expired)
  ultimately have "max_size c1x \<le> 0"
    using assms by (simp add: shrunk_def)
  then have "evict_while_full c1x = None"
    by (rule evict_while_full_diverges)
  then show ?thesis
    unfolding cache_put_unfold Let_def c1_def [symmetric] c1x_def [symmetric]
    by simp
qed

lemma cache_put_ok:
  assumes "cache_put clk n k v t c = Some (c', n')" and "cache_ok c"
  shows "cache_ok c'"
proof -
  from cache_put_SomeD [OF assms(1)] obtain c2 e where
    sh: "shrunk c c2" and k2: "k \<notin> fst ` set (entries c2)" and
    e: "e = fst (CacheEntry_init clk n k v (py_or t (default_ttl c)))" and
    c': "c' = c2\<lparr>entries := entries c2 @ [(k, e)],
                total_memory := total_memory c2 + entry_size e\<rparr>"
    by blast
  from sh assms(2) have ok2: "cache_ok c2" by (simp add: shrunk_def)
  have "0 \<le> entry_size e"
    by (simp add: e CacheEntry_init_def estimate_size_nonneg)
  with ok2 k2 show ?thesis
    by (auto simp: cache_ok_def c' sum_sizes_def)
qed

subsection \<open>What get does\<close>

lemma od_setitem_map_of: "map_of (od_setitem k v es) = (map_of es)(k \<mapsto> v)"
  by (induction es) (auto simp: fun_eq_iff)

lemma od_setitem_distinct:
  "distinct (map fst es) \<Longrightarrow> distinct (map fst (od_setitem k v es))"
  by (cases "k \<in> fst ` set es") (simp_all add: od_setitem_keys_present od_setitem_fresh)

lemma od_setitem_sum:
  "map_of es k = Some e \<Longrightarrow>
   (\<Sum>p\<leftarrow>od_setitem k e' es. f (snd p)) = (\<Sum>p\<leftarrow>es. f (snd p)) - f e + (f e' :: int)"
  by (induction es) (auto split: if_splits)

lemma od_setitem_set: "set (od_setitem k v es) \<subseteq> insert (k, v) (set es)"
  by (induction es) auto

text \<open>A hit of \<open>get\<close> rewrites one entry without changing its size.\<close>

lemma cache_get_ok:
  assumes "cache_ok c"
  shows "cache_ok (fst (snd (cache_get clk n k dflt c)))"
proof (cases "map_of (entries c) k")
  case None
  with assms show ?thesis by (simp add: cache_get_def cache_ok_def)
next
  case (Some e)
  show ?thesis
  proof (cases "fst (is_expired clk n e)")
    case True
    have "cache_ok (snd (cache_remove k c))"
      using assms by (rule cache_remove_ok)
    then have "cache_ok ((snd (cache_remove k c))\<lparr>misses := misses (snd (cache_remove k c)) + 1\<rparr>)"
      by (simp add: cache_ok_def)
    moreover obtain n1 where "is_expired clk n e = (True, n1)"
      using True by (cases "is_expired clk n e") auto
    ultimately show ?thesis
      using Some by (simp add: cache_get_def Let_def)
  next
    case False
    then obtain n1 where ie: "is_expired clk n e = (False, n1)"
      by (cases "is_expired clk n e") auto
    define e' where "e' = e\<lparr>last_accessed := reading clk n1,
                            access_count := access_count e + 1\<rparr>"
    define es where "es = od_setitem k e' (entries c)"
    have sz: "entry_size e' = entry_size e" by (simp add: e'_def)
    have d: "distinct (map fst es)"
      using assms by (simp add: es_def cache_ok_def od_setitem_distinct)
    have s: "sum_sizes es = sum_sizes (entries c)"
      using od_setitem_sum [OF Some, of entry_size e'] sz by (simp add: es_def sum_sizes_def)
    have "(k, e) \<in> set (entries c)"
      using Some by (rule map_of_SomeD)
    with assms have "0 \<le> entry_size e" by (auto simp: cache_ok_def)
    with assms sz have nn: "\<forall>p \<in> set es. 0 \<le> entry_size (snd p)"
      using od_setitem_set [of k e' "entries c"] by (auto simp: es_def cache_ok_def)
    have m: "map_of es k = Some e'"
      by (simp add: es_def od_setitem_map_of)
    have d2: "distinct (map fst (od_pop k es @ [(k, e')]))"
      using od_pop_distinct [OF d, of k] od_pop_absent [of k es] by auto
    have s2: "sum_sizes (od_pop k es @ [(k, e')]) = sum_sizes es"
      using od_pop_sum [OF d m, of entry_size] by (simp add: sum_sizes_def)
    have nn2: "\<forall>p \<in> set (od_pop k es @ [(k, e')]). 0 \<le> entry_size (snd p)"
      using nn \<open>0 \<le> entry_size e\<close> sz by (auto simp: od_pop_def)
    have "cache_ok (c\<lparr>hits := hits c + 1,
                      entries := (if policy c = LRU then od_pop k es @ [(k, e')] else es)\<rparr>)"
      using assms d s nn d2 s2 nn2 by (simp add: cache_ok_def)
    with Some ie show ?thesis
      unfolding e'_def es_def
      by (auto simp: cache_get_def access_def Let_def split: if_splits)
  qed
qed

lemma cache_clear_ok: "cache_ok (cache_clear c)"
  by (simp add: cache_clear_def cache_ok_def sum_sizes_def)

lemma reachable_ok:
  "reachable_from clk c0 c \<Longrightarrow> cache_ok c0 \<Longrightarrow> cache_ok c"
proof (induction rule: reachable_from.induct)
  case start
  then show ?case .
next
  case (after_get c n k dflt v c' n')
  then show ?case using cache_get_ok [of c clk n k dflt] by simp
next
  case (after_put c n k v t c' n')
  from after_put.IH [OF after_put.prems] have "cache_ok c" .
  with after_put.hyps(2) show ?case by (rule cache_put_ok)
next
  case (after_remove c k b c')
  then show ?case using cache_remove_ok [of c k] by simp
next
  case (after_clear c)
  show ?case by (rule cache_clear_ok)
next
  case (after_sweep c n c' n')
  then show ?case using shrunk_evict_expired [of c clk n] by (simp add: shrunk_def)
qed

subsection \<open>Running the loops on a given cache\<close>

lemma evict_while_full_stop:
  "\<not> max_size c \<le> int (length (entries c)) \<Longrightarrow> evict_while_full c = Some c"
  by (subst evict_while_full.simps) simp

lemma evict_while_full_step:
  "max_size c \<le> int (length (entries c)) \<Longrightarrow>
     evict_while_full c = evict_while_full (snd (evict_one c))"
  by (subst evict_while_full.simps) simp

lemma evict_while_over_stop:
  "\<not> max_memory c < total_memory c + s \<Longrightarrow> evict_while_over s c = c"
  by (simp add: evict_while_over.simps [of s c])

lemma evict_while_over_step:
  "max_memory c < total_memory c + s \<Longrightarrow> entries c \<noteq> [] \<Longrightarrow>
     evict_while_over s c = evict_while_over s (snd (evict_one c))"
  by (simp add: evict_while_over.simps [of s c] evict_one_nonempty)

lemma py_or_None: "py_or None d = d"
  by (simp add: py_or_def)

lemma py_or_Some: "x \<noteq> 0 \<Longrightarrow> py_or (Some x) d = Some x"
  by (simp add: py_or_def)

lemmas cache_eval =
  cache_put_def cache_get_def cache_remove_def CacheEntry_init_def evict_if_needed_def
  evict_expired_def evict_one_def is_expired_def access_def py_or_None py_or_Some od_pop_def
  Cache_init_def LRU_def LFU_def FIFO_def TTL_def Let_def still_clock_def
  evict_while_full_stop evict_while_full_step evict_while_over_stop evict_while_over_step
  evict_while_over_empty

lemma cache_get_config:
  "name (fst (snd (cache_get clk n k dflt c))) = name c"
  "max_size (fst (snd (cache_get clk n k dflt c))) = max_size c"
  "max_memory (fst (snd (cache_get clk n k dflt c))) = max_memory c"
  "policy (fst (snd (cache_get clk n k dflt c))) = policy c"
  "default_ttl (fst (snd (cache_get clk n k dflt c))) = default_ttl c"
  by (simp_all add: cache_get_def access_def Let_def cache_remove_config
      split: option.splits prod.splits bool.splits)

lemma shrunk_same_config: "shrunk c c' \<Longrightarrow> same_config c c'"
  by (simp add: shrunk_def same_config_def)

lemma cache_put_config:
  assumes "cache_put clk n k v t c = Some (c', n')"
  shows "same_config c c'"
proof -
  from cache_put_SomeD [OF assms] obtain c2 e where
    "shrunk c c2" and
    "c' = c2\<lparr>entries := entries c2 @ [(k, e)],
              total_memory := total_memory c2 + entry_size e\<rparr>"
    by blast
  then show ?thesis by (simp add: shrunk_def same_config_def)
qed

lemma reachable_config:
  "reachable_from clk c0 c \<Longrightarrow> same_config c0 c"
proof (induction rule: reachable_from.induct)
  case start
  show ?case by (simp add: same_config_def)
next
  case (after_get c n k dflt v c' n')
  then show ?case
    using cache_get_config [of clk n k dflt c] by (simp add: same_config_def)
next
  case (after_put c n k v t c' n')
  from cache_put_config [OF after_put.hyps(2)] after_put.IH show ?case
    by (simp add: same_config_def)
next
  case (after_remove c k b c')
  then show ?case
    using cache_remove_config [of k c] by (simp add: same_config_def)
next
  case (after_clear c)
  then show ?case by (simp add: same_config_def cache_clear_def)
next
  case (after_sweep c n c' n')
  then show ?case
    using shrunk_evict_expired [of c clk n] by (simp add: shrunk_def same_config_def)
qed

subsection \<open>The victim under LFU\<close>

lemma py_min_keeps_best: "\<forall>y \<in> set xs. f b \<le> f y \<Longrightarrow> py_min f b xs = b"
  by (induction xs) auto

lemma py_min_first_least:
  "f x < f b \<Longrightarrow> \<forall>y \<in> set pre. f x < f y \<Longrightarrow> \<forall>y \<in> set post. f x \<le> f y \<Longrightarrow>
     py_min f b (pre @ x # post) = x"
proof (induction pre arbitrary: b)
  case Nil
  then show ?case by (simp add: py_min_keeps_best)
next
  case (Cons y pre)
  then show ?case by simp
qed

text \<open>Every non-empty list has a first element of least measure.\<close>

lemma first_least_exists:
  "es \<noteq> [] \<Longrightarrow>
     \<exists>pre x post. es = pre @ x # post \<and> (\<forall>y \<in> set pre. f x < f y) \<and>
       (\<forall>y \<in> set post. (f x :: int) \<le> f y)"
proof (induction es)
  case Nil
  then show ?case by simp
next
  case (Cons z es)
  show ?case
  proof (cases "es = []")
    case True
    then have "z # es = [] @ z # []" by simp
    then show ?thesis by (metis empty_iff list.set(1))
  next
    case False
    with Cons.IH obtain pre x post where es: "es = pre @ x # post"
      and pre: "\<forall>y \<in> set pre. f x < f y" and post: "\<forall>y \<in> set post. f x \<le> f y"
      by blast
    show ?thesis
    proof (cases "f z \<le> f x")
      case True
      have "z # es = [] @ z # es" by simp
      moreover have "\<forall>y \<in> set es. f z \<le> f y"
        using True es pre post by (auto simp: less_imp_le order_trans)
      ultimately show ?thesis by (metis empty_iff list.set(1))
    next
      case False
      have "z # es = (z # pre) @ x # post" by (simp add: es)
      moreover have "\<forall>y \<in> set (z # pre). f x < f y" using False pre by auto
      ultimately show ?thesis using post by blast
    qed
  qed
qed

lemma od_pop_middle:
  "distinct (map fst (pre @ (k, e) # post)) \<Longrightarrow> od_pop k (pre @ (k, e) # post) = pre @ post"
proof -
  assume "distinct (map fst (pre @ (k, e) # post))"
  then have "k \<notin> fst ` set pre" and "k \<notin> fst ` set post" by auto
  then have "od_pop k pre = pre" and "od_pop k post = post"
    by (simp_all add: od_pop_notin)
  then show ?thesis by (simp add: od_pop_def)
qed

lemma evict_one_lfu:
  assumes lfu: "policy c = LFU" and d: "distinct (map fst (entries c))"
    and es: "entries c = pre @ (k, e) # post"
    and pre: "\<forall>p \<in> set pre. access_count e < access_count (snd p)"
    and post: "\<forall>p \<in> set post. access_count e \<le> access_count (snd p)"
  shows "evict_one c =
     (True, c\<lparr>entries := pre @ post, total_memory := total_memory c - entry_size e\<rparr>)"
proof -
  define f where "f = (\<lambda>k'. access_count (the (map_of (entries c) k')))"
  have look: "f (fst p) = access_count (snd p)" if "p \<in> set (entries c)" for p
  proof -
    from that d have "map_of (entries c) (fst p) = Some (snd p)" by simp
    then show ?thesis by (simp add: f_def)
  qed
  have fk: "f k = access_count e"
    using look [of "(k, e)"] es by simp
  have v: "victim c = k"
  proof (cases pre)
    case Nil
    have "\<forall>y \<in> set (map fst post). f k \<le> f y"
      using post look es fk by auto
    then have "py_min f k (map fst post) = k" by (rule py_min_keeps_best)
    with Nil es lfu show ?thesis by (simp add: victim_def f_def)
  next
    case (Cons p pre')
    have "f k < f (fst p)"
      using pre look [of p] es fk Cons by simp
    moreover have "\<forall>y \<in> set (map fst pre'). f k < f y"
      using pre look es fk Cons by auto
    moreover have "\<forall>y \<in> set (map fst post). f k \<le> f y"
      using post look es fk by auto
    ultimately have "py_min f (fst p) (map fst pre' @ k # map fst post) = k"
      by (rule py_min_first_least)
    with Cons es lfu show ?thesis by (simp add: victim_def f_def)
  qed
  have "(k, e) \<in> set (entries c)" by (simp add: es)
  with d have m: "map_of (entries c) k = Some e"
    by (simp only: map_of_eq_Some_iff)
  have "od_pop k (entries c) = pre @ post"
    using d unfolding es by (rule od_pop_middle)
  with m v es show ?thesis
    by (simp add: evict_one_victim cache_remove_def)
qed

lemma cache_get_keeps_order:
  assumes "policy c \<noteq> LRU"
  shows "map fst (entries (fst (snd (cache_get clk n k dflt c)))) = map fst (entries c) \<or>
         map fst (entries (fst (snd (cache_get clk n k dflt c)))) = removeAll k (map fst (entries c))"
proof (cases "map_of (entries c) k")
  case None
  then show ?thesis by (simp add: cache_get_def)
next
  case (Some e)
  then have "(k, e) \<in> set (entries c)" by (rule map_of_SomeD)
  then have kin: "k \<in> fst ` set (entries c)" by (rule rev_image_eqI) simp
  obtain ex n1 where ie: "is_expired clk n e = (ex, n1)"
    by (cases "is_expired clk n e") auto
  show ?thesis
  proof (cases ex)
    case True
    with Some ie show ?thesis
      by (simp add: cache_get_def Let_def cache_remove_def od_pop_keys)
  next
    case False
    with Some ie assms kin show ?thesis
      by (simp add: cache_get_def access_def Let_def od_setitem_keys_present)
  qed
qed

lemma cache_put_appends:
  assumes "cache_put clk n k v t c = Some (c', n')"
  shows "\<exists>P e. entries c' = filter P (entries c) @ [(k, e)]"
proof -
  from cache_put_SomeD [OF assms] obtain c2 e where
    sh: "shrunk c c2" and
    c': "c' = c2\<lparr>entries := entries c2 @ [(k, e)],
                total_memory := total_memory c2 + entry_size e\<rparr>"
    by blast
  from sh obtain P where "entries c2 = filter P (entries c)"
    unfolding shrunk_def by blast
  with c' have "entries c' = filter P (entries c) @ [(k, e)]" by simp
  then show ?thesis by blast
qed

lemma cache_put_memory_bound:
  assumes "cache_put clk n k v t c = Some (c', n')" and "cache_ok c"
  shows "total_memory c' \<le> max_memory c \<or> max_memory c < estimate_size v"
proof -
  from cache_put_SomeD [OF assms(1)] obtain c2 e where
    sh: "shrunk c c2" and
    room: "total_memory c2 + entry_size e \<le> max_memory c \<or> entries c2 = []" and
    e: "e = fst (CacheEntry_init clk n k v (py_or t (default_ttl c)))" and
    c': "c' = c2\<lparr>entries := entries c2 @ [(k, e)],
                total_memory := total_memory c2 + entry_size e\<rparr>"
    by blast
  have sz: "entry_size e = estimate_size v"
    by (simp add: e CacheEntry_init_def)
  from room show ?thesis
  proof
    assume "total_memory c2 + entry_size e \<le> max_memory c"
    then show ?thesis by (simp add: c')
  next
    assume "entries c2 = []"
    moreover from sh assms(2) have "cache_ok c2" by (simp add: shrunk_def)
    ultimately have "total_memory c2 = 0" by (simp add: cache_ok_def sum_sizes_def)
    then have "total_memory c' = estimate_size v" by (simp add: c' sz)
    then show ?thesis by linarith
  qed
qed

lemma cache_put_entry_count:
  assumes "cache_put clk n k v t c = Some (c', n')"
  shows "int (length (entries c')) \<le> max_size c"
proof -
  from cache_put_SomeD [OF assms] obtain c2 e where
    "int (length (entries c2)) < max_size c" and
    "c' = c2\<lparr>entries := entries c2 @ [(k, e)],
              total_memory := total_memory c2 + entry_size e\<rparr>"
    by blast
  then show ?thesis by simp
qed

lemma evict_one_other_policy:
  "policy c \<noteq> LFU \<Longrightarrow> entries c \<noteq> [] \<Longrightarrow>
     evict_one c = cache_remove (fst (hd (entries c))) c"
  by (simp add: evict_one_victim victim_def)

subsection \<open>The sweep of expired entries\<close>
















subsection \<open>Entries that do not expire\<close>


subsection \<open>Caches created through the manager\<close>

lemma create_cache_settings:
  "fst (create_cache nm ms mm pol d m) = Cache_init nm ms mm pol d"
  by (simp add: create_cache_def Let_def)

lemma create_cache_registers:
  "get_cache nm (snd (create_cache nm ms mm pol d m)) = Some (Cache_init nm ms mm pol d)"
  by (simp add: create_cache_def get_cache_def Let_def od_setitem_map_of)

text \<open>
  On a cache created with \<open>max_size\<close> at least 1, whatever \<open>max_memory\<close> and the policy
  string are, every \<open>put\<close>, in any state the cache can reach, returns and keeps the
  invariants.
\<close>

lemma put_on_created_cache:
  assumes "reachable_from clk (fst (create_cache nm ms mm pol d m)) c" and "1 \<le> ms"
  shows "\<exists>c' n'. cache_put clk n k v t c = Some (c', n') \<and>
            distinct (map fst (entries c')) \<and>
            total_memory c' = sum_sizes (entries c') \<and>
            int (length (entries c')) \<le> ms \<and>
            (total_memory c' \<le> mm \<or> mm < estimate_size v)"
proof -
  from assms(1) have r: "reachable_from clk (Cache_init nm ms mm pol d) c"
    by (simp only: create_cache_settings)
  have ok: "cache_ok c"
    using r cache_ok_init by (rule reachable_ok)
  have cfg: "max_size c = ms" "max_memory c = mm" "policy c = pol"
    using reachable_config [OF r] by (simp_all add: same_config_def Cache_init_def)
  from cfg assms(2) obtain c' n' where put: "cache_put clk n k v t c = Some (c', n')"
    using cache_put_returns [of c clk n k v t] by auto
  have ok': "cache_ok c'"
    using put ok by (rule cache_put_ok)
  have "int (length (entries c')) \<le> ms"
    using cache_put_entry_count [OF put] cfg by simp
  moreover have "total_memory c' \<le> mm \<or> mm < estimate_size v"
    using cache_put_memory_bound [OF put ok] cfg by simp
  ultimately show ?thesis
    using put ok' by (auto simp: cache_ok_def)
qed

section \<open>The claims\<close>

subsection \<open>C1: Memory accounting\<close>

text \<open>
  C1. Whatever sequence of \<open>get\<close>, \<open>put\<close>, \<open>remove\<close>, \<open>clear\<close> and sweeps has run on
  a cache since it was constructed, \<open>total_memory\<close> equals the sum of the \<open>size\<close>
  fields of the entries it holds.
\<close>

theorem total_memory_is_sum_of_sizes:
  "reachable_from clk (Cache_init nm ms mm pol t) c \<Longrightarrow>
     total_memory c = sum_sizes (entries c)"
proof -
  assume "reachable_from clk (Cache_init nm ms mm pol t) c"
  then have "cache_ok c"
    using cache_ok_init by (rule reachable_ok)
  then show ?thesis
    by (simp add: cache_ok_def)
qed

theorem total_memory_is_sum_of_sizes_witness:
  "reachable_from (still_clock 0) (Cache_init ''c'' 2 100 LRU None)
     \<lparr>name = ''c'', max_size = 2, max_memory = 100, policy = LRU, default_ttl = None,
      entries = [(1::nat, \<lparr>key = 1, val = Other (), created_at = 0, last_accessed = 0,
                       access_count = 0, ttl = None, entry_size = 64\<rparr>)],
      total_memory = 64, hits = 0, misses = 0\<rparr> \<and>
   total_memory
     \<lparr>name = ''c'', max_size = 2, max_memory = 100, policy = LRU, default_ttl = None,
      entries = [(1::nat, \<lparr>key = 1, val = Other (), created_at = 0, last_accessed = 0,
                       access_count = 0, ttl = None, entry_size = 64\<rparr>)],
      total_memory = 64, hits = 0, misses = 0\<rparr> =
   sum_sizes (entries
     \<lparr>name = ''c'', max_size = 2, max_memory = 100, policy = LRU, default_ttl = None,
      entries = [(1::nat, \<lparr>key = 1, val = Other (), created_at = 0, last_accessed = 0,
                       access_count = 0, ttl = None, entry_size = 64\<rparr>)],
      total_memory = 64, hits = 0, misses = 0\<rparr>)"
proof -
  have put: "cache_put (still_clock 0) 0 (1::nat) (Other ()) None (Cache_init ''c'' 2 100 LRU None) =
   Some (\<lparr>name = ''c'', max_size = 2, max_memory = 100, policy = LRU, default_ttl = None,
      entries = [(1, \<lparr>key = 1, val = Other (), created_at = 0, last_accessed = 0,
                       access_count = 0, ttl = None, entry_size = 64\<rparr>)],
      total_memory = 64, hits = 0, misses = 0\<rparr>, 2)"
    by (simp add: cache_eval)
  have r: "reachable_from (still_clock 0) (Cache_init ''c'' 2 100 LRU None)
     \<lparr>name = ''c'', max_size = 2, max_memory = 100, policy = LRU, default_ttl = None,
      entries = [(1::nat, \<lparr>key = 1, val = Other (), created_at = 0, last_accessed = 0,
                       access_count = 0, ttl = None, entry_size = 64\<rparr>)],
      total_memory = 64, hits = 0, misses = 0\<rparr>"
    by (rule reachable_from.after_put [OF reachable_from.start put])
  from r total_memory_is_sum_of_sizes [OF r] show ?thesis by (rule conjI)
qed

subsection \<open>C2: The entry-count bound\<close>

text \<open>
  C2. When \<open>put\<close> returns, the cache holds at most \<open>max_size\<close> entries, and
  \<open>max_size\<close> is what it was.
\<close>

theorem put_respects_max_entries:
  assumes "cache_put clk n k v t c = Some (c', n')"
  shows "max_size c' = max_size c \<and> int (length (entries c')) \<le> max_size c"
proof -
  from cache_put_SomeD [OF assms] obtain c2 e where
    "shrunk c c2" and "int (length (entries c2)) < max_size c" and
    "c' = c2\<lparr>entries := entries c2 @ [(k, e)],
              total_memory := total_memory c2 + entry_size e\<rparr>"
    by blast
  then show ?thesis by (simp add: shrunk_def)
qed

theorem put_respects_max_entries_witness:
  "cache_put (still_clock 0) 2 (2::nat) (Other ()) None
     \<lparr>name = ''c'', max_size = 1, max_memory = 100, policy = LRU, default_ttl = None,
      entries = [(1, \<lparr>key = 1, val = Other (), created_at = 0, last_accessed = 0,
                       access_count = 0, ttl = None, entry_size = 64\<rparr>)],
      total_memory = 64, hits = 0, misses = 0\<rparr> =
   Some (\<lparr>name = ''c'', max_size = 1, max_memory = 100, policy = LRU, default_ttl = None,
      entries = [(2, \<lparr>key = 2, val = Other (), created_at = 0, last_accessed = 0,
                       access_count = 0, ttl = None, entry_size = 64\<rparr>)],
      total_memory = 64, hits = 0, misses = 0\<rparr>, 4) \<and>
   int (length [(2::nat, \<lparr>key = 2::nat, val = Other (), created_at = 0, last_accessed = 0,
                       access_count = 0, ttl = None, entry_size = 64\<rparr>)]) \<le> 1"
proof -
  have put: "cache_put (still_clock 0) 2 (2::nat) (Other ()) None
     \<lparr>name = ''c'', max_size = 1, max_memory = 100, policy = LRU, default_ttl = None,
      entries = [(1, \<lparr>key = 1, val = Other (), created_at = 0, last_accessed = 0,
                       access_count = 0, ttl = None, entry_size = 64\<rparr>)],
      total_memory = 64, hits = 0, misses = 0\<rparr> =
   Some (\<lparr>name = ''c'', max_size = 1, max_memory = 100, policy = LRU, default_ttl = None,
      entries = [(2, \<lparr>key = 2, val = Other (), created_at = 0, last_accessed = 0,
                       access_count = 0, ttl = None, entry_size = 64\<rparr>)],
      total_memory = 64, hits = 0, misses = 0\<rparr>, 4)"
    by (simp add: cache_eval)
  from put_respects_max_entries [OF put]
  have "int (length [(2::nat, \<lparr>key = 2::nat, val = Other (), created_at = 0,
                       last_accessed = 0, access_count = 0, ttl = None,
                       entry_size = 64\<rparr>)]) \<le> 1"
    by (simp only: cache.select_convs)
  with put show ?thesis by (rule conjI)
qed

subsection \<open>C3: The loops of the eviction pass\<close>

text \<open>
  C3 says that \<open>total_memory\<close> is within \<open>max_memory\<close> after \<open>put\<close> unless the
  value put is alone larger than that, and that the eviction pass of \<open>put\<close> ends in
  all cases, a false result of \<open>_evict_one\<close> stopping it. The bound holds whenever
  \<open>put\<close> returns (\<open>cache_put_memory_bound\<close>), and the loop that makes room by
  memory does stop on the empty store (\<open>evict_while_over_empty\<close>). The loop that
  makes room by count does not look at what \<open>_evict_one\<close> returns: on a cache
  created with \<open>max_size = 0\<close> it calls \<open>_evict_one\<close> on the empty store for ever,
  and \<open>put\<close> never returns, whatever the key, the value and the other settings.
\<close>

theorem put_never_returns_at_max_size_zero:
  "cache_put clk n k v t (Cache_init nm 0 mm pol d) = None"
  by (rule cache_put_diverges) (simp add: Cache_init_def)

subsection \<open>C4: Unchecked settings\<close>

text \<open>
  C4 asks that settings that make no sense be refused or replaced, and that \<open>put\<close>
  on the cache that results still return and keep the invariants. \<open>create_cache\<close>
  checks nothing: the cache it returns and registers is the one constructed from the
  arguments as given. With a \<open>max_memory\<close> that is not positive or a policy string that
  is not known this does no harm (\<open>put_on_created_cache\<close>). With \<open>max_size = 0\<close>,
  whatever the other settings, \<open>put\<close> on the cache that \<open>create_cache\<close> returns never
  returns: the loop that makes room by count does not stop on the empty store.
\<close>

theorem put_on_cache_created_with_max_size_zero:
  "fst (create_cache nm 0 mm pol d m) = Cache_init nm 0 mm pol d \<and>
   get_cache nm (snd (create_cache nm 0 mm pol d m)) = Some (Cache_init nm 0 mm pol d) \<and>
   cache_put clk n k v t (fst (create_cache nm 0 mm pol d m)) = None"
proof -
  have "max_size (fst (create_cache nm 0 mm pol d m)) \<le> 0"
    by (simp add: create_cache_settings Cache_init_def)
  then have "cache_put clk n k v t (fst (create_cache nm 0 mm pol d m)) = None"
    by (rule cache_put_diverges)
  then show ?thesis
    by (simp add: create_cache_settings create_cache_registers)
qed

subsection \<open>C5: Reading an expired entry\<close>

text \<open>
  C5. \<open>get\<close> on a key whose entry has a time to live \<open>d\<close> that has elapsed since
  the entry was created (the difference between the time read and the time of creation,
  as the machine computes it, is greater than \<open>d\<close>: the test of \<open>is_expired\<close>)
  returns the default, counts a miss and no hit, and removes the entry, so that the key
  is absent afterwards.
\<close>

theorem get_expired_entry:
  assumes "map_of (entries c) k = Some e" and "ttl e = Some d"
    and "d < fsub clk (reading clk n) (created_at e)"
  shows "case cache_get clk n k dflt c of
           (r, c', n') \<Rightarrow>
             r = dflt \<and> misses c' = misses c + 1 \<and> hits c' = hits c \<and>
             map_of (entries c') k = None \<and> entries c' = od_pop k (entries c) \<and>
             total_memory c' = total_memory c - entry_size e"
proof -
  have "is_expired clk n e = (True, Suc n)"
    using assms(2,3) by (simp add: is_expired_def)
  moreover have "map_of (od_pop k (entries c)) k = None"
    using od_pop_absent [of k "entries c"] by (simp add: map_of_eq_None_iff)
  ultimately show ?thesis
    using assms(1) by (simp add: cache_get_def cache_remove_def Let_def)
qed

theorem get_expired_entry_witness:
  "cache_get \<lparr>reading = (\<lambda>i. if i < 2 then 0 else 15), fsub = (\<lambda>a b. a - b)\<rparr> 2
     (1::nat) (Other (0::nat))
     \<lparr>name = ''c'', max_size = 2, max_memory = 100, policy = LRU, default_ttl = None,
      entries = [(1, \<lparr>key = 1, val = Other 7, created_at = 0, last_accessed = 0,
                       access_count = 0, ttl = Some 10, entry_size = 64\<rparr>)],
      total_memory = 64, hits = 0, misses = 0\<rparr> =
   (Other 0,
    \<lparr>name = ''c'', max_size = 2, max_memory = 100, policy = LRU, default_ttl = None,
      entries = [], total_memory = 0, hits = 0, misses = 1\<rparr>, 3)"
proof -
  let ?clk = "\<lparr>reading = (\<lambda>i::nat. if i < 2 then 0 else 15), fsub = (\<lambda>a b. a - b)\<rparr>"
  let ?e = "\<lparr>key = 1::nat, val = Other (7::nat), created_at = 0, last_accessed = 0,
             access_count = 0, ttl = Some 10, entry_size = 64\<rparr>"
  let ?c = "\<lparr>name = ''c'', max_size = 2, max_memory = 100, policy = LRU, default_ttl = None,
      entries = [(1::nat, ?e)], total_memory = 64, hits = 0, misses = 0\<rparr>"
  have 1: "map_of (entries ?c) 1 = Some ?e" by simp
  have 2: "ttl ?e = Some 10" by simp
  have 3: "10 < fsub ?clk (reading ?clk 2) (created_at ?e)" by simp
  obtain r c' n' where g: "cache_get ?clk 2 1 (Other 0) ?c = (r, c', n')"
    by (cases "cache_get ?clk 2 1 (Other 0) ?c") auto
  have n': "n' = 3"
    using g by (simp add: cache_eval)
  from get_expired_entry [where clk = ?clk and n = 2 and dflt = "Other 0", OF 1 2 3] g
  have "r = Other 0" "misses c' = 1" "hits c' = 0" "entries c' = []" "total_memory c' = 0"
    by (simp_all add: od_pop_def)
  moreover have "name c' = ''c''" "max_size c' = 2" "max_memory c' = 100" "policy c' = LRU"
      "default_ttl c' = None"
    using cache_get_config [of ?clk 2 1 "Other 0" ?c] g by simp_all
  ultimately have "c' = \<lparr>name = ''c'', max_size = 2, max_memory = 100, policy = LRU,
      default_ttl = None, entries = [], total_memory = 0, hits = 0, misses = 1\<rparr>"
    by (cases c') simp
  with g n' \<open>r = Other 0\<close> show ?thesis by simp
qed

subsection \<open>C6: The LRU scenario\<close>




subsection \<open>C7: The LFU scenario\<close>




subsection \<open>C8: The periodic sweep\<close>




subsection \<open>C9: Ties under LFU\<close>

text \<open>
  C9. In a cache created with the LFU policy, whatever has run on it since:
  \<^item> \<open>_evict_one\<close> removes the first entry, in dictionary order, whose access count is
    the least: every entry before it has a strictly greater count, every entry after it
    a count at least as great;
  \<^item> \<open>get\<close> leaves the keys in their order (at most dropping the key it was asked for,
    when its entry had expired);
  \<^item> \<open>put\<close> places its entry last, after the entries it keeps, which stay in order.

  So the dictionary order is the order of insertion, and among the entries of least
  access count the victim is the one inserted first.
\<close>

theorem lfu_victim_is_oldest_of_least_used:
  assumes "reachable_from clk (Cache_init nm ms mm LFU d) c"
  shows "(entries c \<noteq> [] \<longrightarrow>
            (\<exists>pre k e post.
               entries c = pre @ (k, e) # post \<and>
               (\<forall>p \<in> set pre. access_count e < access_count (snd p)) \<and>
               (\<forall>p \<in> set post. access_count e \<le> access_count (snd p)) \<and>
               evict_one c =
                 (True, c\<lparr>entries := pre @ post,
                          total_memory := total_memory c - entry_size e\<rparr>))) \<and>
         (\<forall>n k dflt.
            map fst (entries (fst (snd (cache_get clk n k dflt c)))) = map fst (entries c) \<or>
            map fst (entries (fst (snd (cache_get clk n k dflt c)))) =
              removeAll k (map fst (entries c))) \<and>
         (\<forall>n k v t c' n'.
            cache_put clk n k v t c = Some (c', n') \<longrightarrow>
            (\<exists>P e. entries c' = filter P (entries c) @ [(k, e)]))"
proof -
  have "cache_ok c"
    using assms cache_ok_init by (rule reachable_ok)
  then have d: "distinct (map fst (entries c))"
    by (simp add: cache_ok_def)
  have lfu: "policy c = LFU"
    using reachable_config [OF assms] by (simp add: same_config_def Cache_init_def)
  have 1: "\<exists>pre k e post.
               entries c = pre @ (k, e) # post \<and>
               (\<forall>p \<in> set pre. access_count e < access_count (snd p)) \<and>
               (\<forall>p \<in> set post. access_count e \<le> access_count (snd p)) \<and>
               evict_one c =
                 (True, c\<lparr>entries := pre @ post,
                          total_memory := total_memory c - entry_size e\<rparr>)"
    if "entries c \<noteq> []"
  proof -
    from first_least_exists [OF that, of "\<lambda>p. access_count (snd p)"]
    obtain pre x post where es: "entries c = pre @ x # post"
      and pre: "\<forall>p \<in> set pre. access_count (snd x) < access_count (snd p)"
      and post: "\<forall>p \<in> set post. access_count (snd x) \<le> access_count (snd p)"
      by blast
    have es': "entries c = pre @ (fst x, snd x) # post"
      by (simp add: es)
    from evict_one_lfu [OF lfu d es' pre post] es' pre post show ?thesis
      by blast
  qed
  have "LFU \<noteq> LRU" by (simp add: LFU_def LRU_def)
  with lfu have "policy c \<noteq> LRU" by simp
  then have 2: "map fst (entries (fst (snd (cache_get clk n k dflt c)))) = map fst (entries c) \<or>
      map fst (entries (fst (snd (cache_get clk n k dflt c)))) =
        removeAll k (map fst (entries c))" for n k dflt
    by (rule cache_get_keeps_order)
  show ?thesis
  proof (intro conjI allI impI)
    assume "entries c \<noteq> []"
    then show "\<exists>pre k e post.
               entries c = pre @ (k, e) # post \<and>
               (\<forall>p \<in> set pre. access_count e < access_count (snd p)) \<and>
               (\<forall>p \<in> set post. access_count e \<le> access_count (snd p)) \<and>
               evict_one c =
                 (True, c\<lparr>entries := pre @ post,
                          total_memory := total_memory c - entry_size e\<rparr>)"
      by (rule 1)
  next
    fix n k dflt
    show "map fst (entries (fst (snd (cache_get clk n k dflt c)))) = map fst (entries c) \<or>
      map fst (entries (fst (snd (cache_get clk n k dflt c)))) =
        removeAll k (map fst (entries c))"
      by (rule 2)
  next
    fix n k v t c' n'
    assume "cache_put clk n k v t c = Some (c', n')"
    then show "\<exists>P e. entries c' = filter P (entries c) @ [(k, e)]"
      by (rule cache_put_appends)
  qed
qed

theorem lfu_victim_is_oldest_of_least_used_witness:
  "reachable_from (still_clock 0) (Cache_init ''c'' 2 200 LFU None)
     \<lparr>name = ''c'', max_size = 2, max_memory = 200, policy = LFU, default_ttl = None,
      entries = [(1::nat, \<lparr>key = 1, val = Other (), created_at = 0, last_accessed = 0,
                       access_count = 0, ttl = None, entry_size = 64\<rparr>),
                 (2, \<lparr>key = 2, val = Other (), created_at = 0, last_accessed = 0,
                       access_count = 0, ttl = None, entry_size = 64\<rparr>)],
      total_memory = 128, hits = 0, misses = 0\<rparr> \<and>
   evict_one
     \<lparr>name = ''c'', max_size = 2, max_memory = 200, policy = LFU, default_ttl = None,
      entries = [(1::nat, \<lparr>key = 1, val = Other (), created_at = 0, last_accessed = 0,
                       access_count = 0, ttl = None, entry_size = 64\<rparr>),
                 (2, \<lparr>key = 2, val = Other (), created_at = 0, last_accessed = 0,
                       access_count = 0, ttl = None, entry_size = 64\<rparr>)],
      total_memory = 128, hits = 0, misses = 0\<rparr> =
   (True,
     \<lparr>name = ''c'', max_size = 2, max_memory = 200, policy = LFU, default_ttl = None,
      entries = [(2, \<lparr>key = 2, val = Other (), created_at = 0, last_accessed = 0,
                       access_count = 0, ttl = None, entry_size = 64\<rparr>)],
      total_memory = 64, hits = 0, misses = 0\<rparr>)"
proof -
  let ?e1 = "\<lparr>key = 1::nat, val = Other (), created_at = 0, last_accessed = 0,
                       access_count = 0, ttl = None, entry_size = 64\<rparr>"
  let ?e2 = "\<lparr>key = 2::nat, val = Other (), created_at = 0, last_accessed = 0,
                       access_count = 0, ttl = None, entry_size = 64\<rparr>"
  let ?c1 = "\<lparr>name = ''c'', max_size = 2, max_memory = 200, policy = LFU, default_ttl = None,
      entries = [(1::nat, ?e1)], total_memory = 64, hits = 0, misses = 0\<rparr>"
  let ?c2 = "\<lparr>name = ''c'', max_size = 2, max_memory = 200, policy = LFU, default_ttl = None,
      entries = [(1::nat, ?e1), (2, ?e2)], total_memory = 128, hits = 0, misses = 0\<rparr>"
  have p1: "cache_put (still_clock 0) 0 (1::nat) (Other ()) None (Cache_init ''c'' 2 200 LFU None) =
      Some (?c1, 2)"
    by (simp add: cache_eval)
  have p2: "cache_put (still_clock 0) 2 (2::nat) (Other ()) None ?c1 = Some (?c2, 4)"
    by (simp add: cache_eval)
  have r: "reachable_from (still_clock 0) (Cache_init ''c'' 2 200 LFU None) ?c2"
    by (rule reachable_from.after_put [OF reachable_from.after_put [OF reachable_from.start p1] p2])
  have ne: "entries ?c2 \<noteq> []" by simp
  from lfu_victim_is_oldest_of_least_used [OF r] ne
  obtain pre k e post where es: "entries ?c2 = pre @ (k, e) # post"
    and pre: "\<forall>p \<in> set pre. access_count e < access_count (snd p)"
    and ev: "evict_one ?c2 =
       (True, ?c2\<lparr>entries := pre @ post, total_memory := total_memory ?c2 - entry_size e\<rparr>)"
    by blast
  have "pre = []"
  proof (cases pre)
    case Nil
    then show ?thesis .
  next
    case (Cons p pre')
    with es have "p = (1, ?e1)" and "(k, e) \<in> {(1, ?e1), (2, ?e2)}"
      by (auto simp: Cons_eq_append_conv append_eq_Cons_conv)
    with pre Cons show ?thesis by auto
  qed
  from es have "[(1, ?e1), (2, ?e2)] = pre @ (k, e) # post"
    by (simp only: cache.select_convs)
  with \<open>pre = []\<close> have eq: "[(1, ?e1), (2, ?e2)] = (k, e) # post"
    by (simp only: append_Nil)
  then have "?e1 = e" and "post = [(2, ?e2)]" by blast+
  then have "entry_size e = 64" by auto
  with ev \<open>pre = []\<close> \<open>post = [(2, ?e2)]\<close> have "evict_one ?c2 =
      (True, \<lparr>name = ''c'', max_size = 2, max_memory = 200, policy = LFU, default_ttl = None,
      entries = [(2, ?e2)], total_memory = 64, hits = 0, misses = 0\<rparr>)"
    by simp
  with r show ?thesis by (rule conjI)
qed

subsection \<open>C10: An oversized value\<close>

text \<open>
  C10. On a cache that admits at least one entry, \<open>put\<close> of a value whose estimated
  size alone exceeds \<open>max_memory\<close> returns, and the new entry is then the only one:
  every entry held before has been evicted.
\<close>

theorem oversized_put_evicts_everything:
  assumes "reachable_from clk (Cache_init nm ms mm pol d) c"
    and "1 \<le> ms" and "mm < estimate_size v"
  shows "\<exists>c' n' e. cache_put clk n k v t c = Some (c', n') \<and>
           entries c' = [(k, e)] \<and> val e = v \<and> entry_size e = estimate_size v"
proof -
  have ok: "cache_ok c"
    using assms(1) cache_ok_init by (rule reachable_ok)
  have cfg: "max_size c = ms" "max_memory c = mm"
    using reachable_config [OF assms(1)] by (simp_all add: same_config_def Cache_init_def)
  from cfg assms(2) obtain c' n' where put: "cache_put clk n k v t c = Some (c', n')"
    using cache_put_returns [of c clk n k v t] by auto
  from cache_put_SomeD [OF put] obtain c2 e where
    sh: "shrunk c c2" and
    room: "total_memory c2 + entry_size e \<le> max_memory c \<or> entries c2 = []" and
    e: "e = fst (CacheEntry_init clk n k v (py_or t (default_ttl c)))" and
    c': "c' = c2\<lparr>entries := entries c2 @ [(k, e)],
                total_memory := total_memory c2 + entry_size e\<rparr>"
    by blast
  have sz: "entry_size e = estimate_size v" and v: "val e = v"
    by (simp_all add: e CacheEntry_init_def)
  from sh ok have "0 \<le> total_memory c2"
    by (simp add: shrunk_def cache_ok_total_nonneg)
  with sz cfg assms(3) have "\<not> total_memory c2 + entry_size e \<le> max_memory c"
    by linarith
  with room have "entries c2 = []" by blast
  with c' have "entries c' = [(k, e)]" by simp
  with put v sz show ?thesis by blast
qed

theorem oversized_put_evicts_everything_witness:
  "reachable_from (still_clock 0) (Cache_init ''c'' 2 100 LRU None)
     \<lparr>name = ''c'', max_size = 2, max_memory = 100, policy = LRU, default_ttl = None,
      entries = [(1::nat, \<lparr>key = 1, val = Other (), created_at = 0, last_accessed = 0,
                       access_count = 0, ttl = None, entry_size = 64\<rparr>)],
      total_memory = 64, hits = 0, misses = 0\<rparr> \<and>
   (100::int) < estimate_size (Surface 10 10 :: unit pyval) \<and>
   (\<exists>c' n' e. cache_put (still_clock 0) 2 (2::nat) (Surface 10 10) None
     \<lparr>name = ''c'', max_size = 2, max_memory = 100, policy = LRU, default_ttl = None,
      entries = [(1::nat, \<lparr>key = 1, val = Other (), created_at = 0, last_accessed = 0,
                       access_count = 0, ttl = None, entry_size = 64\<rparr>)],
      total_memory = 64, hits = 0, misses = 0\<rparr> = Some (c', n') \<and>
     entries c' = [(2, e)] \<and> val e = Surface 10 10 \<and>
     entry_size e = estimate_size (Surface 10 10 :: unit pyval))"
proof -
  have put: "cache_put (still_clock 0) 0 (1::nat) (Other ()) None (Cache_init ''c'' 2 100 LRU None) =
   Some (\<lparr>name = ''c'', max_size = 2, max_memory = 100, policy = LRU, default_ttl = None,
      entries = [(1, \<lparr>key = 1, val = Other (), created_at = 0, last_accessed = 0,
                       access_count = 0, ttl = None, entry_size = 64\<rparr>)],
      total_memory = 64, hits = 0, misses = 0\<rparr>, 2)"
    by (simp add: cache_eval)
  have r: "reachable_from (still_clock 0) (Cache_init ''c'' 2 100 LRU None)
     \<lparr>name = ''c'', max_size = 2, max_memory = 100, policy = LRU, default_ttl = None,
      entries = [(1::nat, \<lparr>key = 1, val = Other (), created_at = 0, last_accessed = 0,
                       access_count = 0, ttl = None, entry_size = 64\<rparr>)],
      total_memory = 64, hits = 0, misses = 0\<rparr>"
    by (rule reachable_from.after_put [OF reachable_from.start put])
  have one: "(1::int) \<le> 2" by simp
  have big: "(100::int) < estimate_size (Surface 10 10 :: unit pyval)" by simp
  from r big oversized_put_evicts_everything [OF r one big, of 2 2 None]
  show ?thesis by (intro conjI)
qed

end
